theory Spec2Isabelle
  imports Main "HOL-Library.Word"
begin

section \<open>The status bar of the Qt interface\<close>

text \<open>
  The source file \<^verbatim>\<open>src/qtui/status_bar.cc\<close> shows log messages in a status bar
  and limits their rate. Its state is a handful of file-level statics, the
  rate-limiting data. The embedding passes that state explicitly, together with what
  the file reaches in libaudcore: the event queue and the subscription of the handler.
  Every function below is the translation of the source function of the same name;
  what the source takes from libaudcore and Qt (the level enumeration, \<open>QueuedFunc\<close>,
  the event queue, \<open>QString::split\<close>) is modelled next to its first use and marked
  as such.
\<close>

subsection \<open>Severity levels\<close>

text \<open>
  Modelled from the spec: the enumeration \<open>audlog::Level\<close> is declared in libaudcore
  and not in the source file, which only names \<open>audlog::Warning\<close> and
  \<open>audlog::Error\<close>. The spec gives the order \<open>Info < Warning < Error\<close> with the higher
  value the higher priority. The enumerators are numbered in that order, upwards from 0,
  as C++ numbers an enumeration; the source compares a level as an \<open>int\<close>.
\<close>

datatype Level = Info | Warning | Error

fun level_int :: "Level \<Rightarrow> int" where
  "level_int Info = 0"
| "level_int Warning = 1"
| "level_int Error = 2"

subsection \<open>The rate-limiting data\<close>

text \<open>
  \<^verbatim>\<open>static QueuedFunc message_func;\<close>
  \<^verbatim>\<open>static aud::spinlock message_lock;\<close>
  \<^verbatim>\<open>static int current_message_level = -1;\<close>
  \<^verbatim>\<open>static unsigned current_message_serial = 0;\<close>

  The serial is an \<open>unsigned\<close>, a 32-bit word whose increment wraps around. The level
  is an \<open>int\<close> that only ever holds \<open>-1\<close> or the value of an enumerator, so no
  arithmetic is done on it and it is modelled as an integer. The spinlock is held for
  the whole body of \<open>set_message_level\<close> and of the queued callback: each of the two is
  one atomic step of the model.

  \<open>message_func\<close> holds the callbacks that wait for their timer. The callback the
  source queues is the closure \<open>[serial]() { ... }\<close>; a waiting callback is recorded
  as the time it is due at and the serial it captured.
\<close>

record timer =
  due :: nat
  captured_serial :: "32 word"

record rate_limiting =
  message_func :: "timer list"
  current_message_level :: int
  current_message_serial :: "32 word"

definition initial_rate_limiting :: rate_limiting where
  "initial_rate_limiting =
     \<lparr>message_func = [], current_message_level = - 1, current_message_serial = 0\<rparr>"

text \<open>
  \<open>QueuedFunc::queue (delay_ms, func)\<close> belongs to libaudcore. Whether queueing on a
  \<open>QueuedFunc\<close> that already waits cancels the earlier callback or leaves it waiting
  is not visible in the source file, so it is a parameter of the model: every theorem
  below holds for both.
\<close>

datatype queue_policy = Cancel_Previous | Keep_Previous

definition QueuedFunc_queue ::
  "queue_policy \<Rightarrow> nat \<Rightarrow> nat \<Rightarrow> 32 word \<Rightarrow> timer list \<Rightarrow> timer list" where
  "QueuedFunc_queue pol now delay_ms serial waiting =
     (case pol of
        Cancel_Previous \<Rightarrow> [\<lparr>due = now + delay_ms, captured_serial = serial\<rparr>]
      | Keep_Previous \<Rightarrow> waiting @ [\<lparr>due = now + delay_ms, captured_serial = serial\<rparr>])"

text \<open>
  The body of the queued callback:
  \<^verbatim>\<open>if (current_message_serial == serial) current_message_level = -1;\<close>
\<close>

definition reset_callback :: "32 word \<Rightarrow> rate_limiting \<Rightarrow> rate_limiting" where
  "reset_callback serial rl =
     (if current_message_serial rl = serial
      then rl\<lparr>current_message_level := - 1\<rparr>
      else rl)"

text \<open>
  \<open>set_message_level\<close>, called at time \<open>now\<close> (in milliseconds). It returns the
  boolean of the source and the rate-limiting data after the call.
\<close>

definition set_message_level ::
  "queue_policy \<Rightarrow> nat \<Rightarrow> Level \<Rightarrow> rate_limiting \<Rightarrow> bool \<times> rate_limiting" where
  "set_message_level pol now level rl =
     (if level_int level \<le> current_message_level rl then (False, rl)
      else
        let rl1 = rl\<lparr>current_message_level := level_int level\<rparr>;
            rl2 = rl1\<lparr>current_message_serial := current_message_serial rl1 + 1\<rparr>;
            serial = current_message_serial rl2
        in (True,
            rl2\<lparr>message_func :=
                  QueuedFunc_queue pol now 1000 serial (message_func rl2)\<rparr>))"

subsection \<open>Runs of the rate limiter\<close>

text \<open>
  What can happen to the rate-limiting data: a producer calls \<open>set_message_level\<close>,
  the main loop runs a waiting callback whose time has come (at its due time or later,
  in any order), or time passes. A run is any sequence of these, from the clock and
  the data it starts with.
\<close>

datatype action = Admit Level | Fire nat | Wait nat

definition fire_timer :: "nat \<Rightarrow> rate_limiting \<Rightarrow> rate_limiting" where
  "fire_timer i rl =
     reset_callback (captured_serial (message_func rl ! i))
       (rl\<lparr>message_func := take i (message_func rl) @ drop (Suc i) (message_func rl)\<rparr>)"

fun step :: "queue_policy \<Rightarrow> action \<Rightarrow> nat \<times> rate_limiting \<Rightarrow> nat \<times> rate_limiting" where
  "step pol (Admit level) (now, rl) = (now, snd (set_message_level pol now level rl))"
| "step pol (Fire i) (now, rl) =
     (if i < length (message_func rl) \<and> due (message_func rl ! i) \<le> now
      then (now, fire_timer i rl) else (now, rl))"
| "step pol (Wait d) (now, rl) = (now + d, rl)"

fun exec :: "queue_policy \<Rightarrow> action list \<Rightarrow> nat \<times> rate_limiting \<Rightarrow> nat \<times> rate_limiting" where
  "exec pol [] s = s"
| "exec pol (x # xs) s = exec pol xs (step pol x s)"

text \<open>The number of calls of \<open>set_message_level\<close> a run accepts.\<close>

fun accepted :: "queue_policy \<Rightarrow> action list \<Rightarrow> nat \<times> rate_limiting \<Rightarrow> nat" where
  "accepted pol [] s = 0"
| "accepted pol (Admit level # xs) s =
     (if fst (set_message_level pol (fst s) level (snd s)) then 1 else 0)
       + accepted pol xs (step pol (Admit level) s)"
| "accepted pol (x # xs) s = accepted pol xs (step pol x s)"

text \<open>
  The punctual schedule, for traces with timestamps: by time \<open>t\<close> the main loop has run
  every callback due at \<open>t\<close> or before, the earliest first, and a call at time \<open>t\<close>
  finds the data so.
\<close>

definition advance :: "nat \<Rightarrow> rate_limiting \<Rightarrow> rate_limiting" where
  "advance t rl =
     foldl (\<lambda>r x. reset_callback (captured_serial x) r)
       (rl\<lparr>message_func := filter (\<lambda>x. \<not> due x \<le> t) (message_func rl)\<rparr>)
       (sort_key due (filter (\<lambda>x. due x \<le> t) (message_func rl)))"

definition admit_at ::
  "queue_policy \<Rightarrow> nat \<Rightarrow> Level \<Rightarrow> rate_limiting \<Rightarrow> bool \<times> rate_limiting" where
  "admit_at pol t level rl = set_message_level pol t level (advance t rl)"

text \<open>The rate-limiting data a run reaches from the start of the program.\<close>

definition reached :: "queue_policy \<Rightarrow> action list \<Rightarrow> rate_limiting" where
  "reached pol xs = snd (exec pol xs (0, initial_rate_limiting))"

text \<open>
  The invariant of the suppression windows while the serial has not wrapped around:
  the serial is the number \<open>n\<close> of messages accepted so far, and the waiting callbacks
  carry serials of different windows, none later than the current one.
\<close>

definition windows_inv :: "nat \<Rightarrow> rate_limiting \<Rightarrow> bool" where
  "windows_inv n rl \<longleftrightarrow>
     unat (current_message_serial rl) = n \<and>
     (\<forall>x \<in> set (message_func rl). unat (captured_serial x) \<le> n) \<and>
     distinct (map captured_serial (message_func rl))"

subsection \<open>The text of a message\<close>

text \<open>
  A \<open>QString\<close> is modelled as a list of characters and the line feed is the
  character 10. \<open>QString::split (sep)\<close> cuts a string at every separator and
  returns the pieces between them, the empty ones too; with \<open>Qt::SkipEmptyParts\<close>
  the empty pieces are left out. \<open>QList::last\<close> requires a list that is not empty:
  on an empty list the behaviour is undefined (an assertion fails in a debug build),
  which the model returns as a failure.
\<close>

datatype failure = Last_Of_Empty_List

definition newline :: char where
  "newline = CHR 0x0A"

fun split_parts :: "char \<Rightarrow> string \<Rightarrow> string list" where
  "split_parts sep [] = [[]]"
| "split_parts sep (c # cs) =
     (if c = sep then [] # split_parts sep cs
      else (case split_parts sep cs of
              [] \<Rightarrow> [[c]]
            | p # ps \<Rightarrow> (c # p) # ps))"

definition split_skip_empty :: "char \<Rightarrow> string \<Rightarrow> string list" where
  "split_skip_empty sep s = filter (\<lambda>p. p \<noteq> []) (split_parts sep s)"

definition QList_last :: "'a list \<Rightarrow> failure + 'a" where
  "QList_last xs = (case xs of [] \<Rightarrow> Inl Last_Of_Empty_List | _ # _ \<Rightarrow> Inr (last xs))"

text \<open>The inverse of the split: the pieces with one separator between neighbours.\<close>

fun join_parts :: "char \<Rightarrow> string list \<Rightarrow> string" where
  "join_parts sep [] = []"
| "join_parts sep [p] = p"
| "join_parts sep (p # q # ps) = p @ sep # join_parts sep (q # ps)"

text \<open>
  The text \<open>log_handler\<close> hands on:
  \<^verbatim>\<open>QString s = text;\<close>
  \<^verbatim>\<open>if (s.contains('\n')) s = s.split('\n', Qt::SkipEmptyParts).last();\<close>
\<close>

definition display_text :: "string \<Rightarrow> failure + string" where
  "display_text s =
     (if newline \<in> set s then QList_last (split_skip_empty newline s) else Inr s)"

subsection \<open>The handler, the display and the destructor\<close>

text \<open>
  \<open>struct Message\<close> is declared in the header of the class; the source builds it as
  \<open>Message{level, s}\<close> and reads \<open>message->level\<close> and \<open>message->text\<close>.
\<close>

record Message =
  msg_level :: Level
  msg_text :: string

text \<open>
  The state the handler and the destructor act on: the rate-limiting data, the clock of
  the main loop, the event queue of libaudcore (events wait there under their name,
  and \<open>event_queue_cancel\<close> removes the events of one name), and the level the
  handler is subscribed at with the logging subsystem, if it is subscribed.
\<close>

record system =
  statics :: rate_limiting
  clock :: nat
  event_queue :: "(string \<times> Message) list"
  subscription :: "Level option"

definition log_handler ::
  "queue_policy \<Rightarrow> Level \<Rightarrow> string \<Rightarrow> int \<Rightarrow> string \<Rightarrow> string \<Rightarrow> system
     \<Rightarrow> failure + system" where
  "log_handler pol level file line func text' sys =
     (case set_message_level pol (clock sys) level (statics sys) of
        (False, _) \<Rightarrow> Inr sys
      | (True, rl) \<Rightarrow>
          (case display_text text' of
             Inl e \<Rightarrow> Inl e
           | Inr s \<Rightarrow>
               Inr (sys\<lparr>statics := rl,
                        event_queue := event_queue sys @
                          [(''qtui log message'', \<lparr>msg_level = level, msg_text = s\<rparr>)]\<rparr>)))"

text \<open>
  \<open>StatusBar::log_message\<close> makes three calls on the widget, recorded in their order.
\<close>

definition TIMEOUT_MS :: nat where
  "TIMEOUT_MS = 5000"

definition warning_css :: string where
  "warning_css = ''QStatusBar { background: rgba(255,255,0,64); }'' @ [newline] @
     ''QStatusBar::item { border: none; }''"

definition error_css :: string where
  "error_css = ''QStatusBar { background: rgba(255,0,0,64); }'' @ [newline] @
     ''QStatusBar::item { border: none; }''"

datatype widget_call =
  codec_label_hide
| setStyleSheet string
| showMessage string nat

definition log_message :: "Message \<Rightarrow> widget_call list" where
  "log_message message =
     [codec_label_hide,
      setStyleSheet (if msg_level message = Error then error_css else warning_css),
      showMessage (msg_text message) TIMEOUT_MS]"

text \<open>
  \<open>StatusBar::~StatusBar\<close>:
  \<^verbatim>\<open>audlog::unsubscribe(log_handler);\<close>
  \<^verbatim>\<open>event_queue_cancel("qtui log message");\<close>
\<close>

definition StatusBar_destructor :: "system \<Rightarrow> system" where
  "StatusBar_destructor sys =
     sys\<lparr>subscription := None,
         event_queue := filter (\<lambda>e. fst e \<noteq> ''qtui log message'') (event_queue sys)\<rparr>"

text \<open>
  The logging subsystem of libaudcore calls a handler only while it is subscribed, with
  the messages at or above the level it subscribed at.
\<close>

definition audlog_log ::
  "queue_policy \<Rightarrow> Level \<Rightarrow> string \<Rightarrow> int \<Rightarrow> string \<Rightarrow> string \<Rightarrow> system
     \<Rightarrow> failure + system" where
  "audlog_log pol level file line func text' sys =
     (case subscription sys of
        None \<Rightarrow> Inr sys
      | Some least \<Rightarrow>
          if level_int least \<le> level_int level
          then log_handler pol level file line func text' sys
          else Inr sys)"

text \<open>The main loop runs the waiting callback \<open>i\<close> of \<open>message_func\<close>.\<close>

definition run_callback :: "nat \<Rightarrow> system \<Rightarrow> system" where
  "run_callback i sys = sys\<lparr>statics := fire_timer i (statics sys)\<rparr>"

text \<open>
  What can happen to the system from outside the class: the logging subsystem logs a
  message, the main loop runs a waiting callback whose time has come, or time passes.
  A message that makes the handler fail ends the run.
\<close>

datatype happening = Logged Level string int string string | Callback nat | Elapse nat

fun happen :: "queue_policy \<Rightarrow> happening \<Rightarrow> system \<Rightarrow> failure + system" where
  "happen pol (Logged level file line func text') sys =
     audlog_log pol level file line func text' sys"
| "happen pol (Callback i) sys =
     (if i < length (message_func (statics sys)) \<and>
         due (message_func (statics sys) ! i) \<le> clock sys
      then Inr (run_callback i sys) else Inr sys)"
| "happen pol (Elapse d) sys = Inr (sys\<lparr>clock := clock sys + d\<rparr>)"

fun happen_all :: "queue_policy \<Rightarrow> happening list \<Rightarrow> system \<Rightarrow> failure + system" where
  "happen_all pol [] sys = Inr sys"
| "happen_all pol (h # hs) sys =
     (case happen pol h sys of
        Inl e \<Rightarrow> Inl e
      | Inr sys' \<Rightarrow> happen_all pol hs sys')"

text \<open>
  The system once the constructor has run and before any message: the handler is
  subscribed at \<open>audlog::Warning\<close>, nothing waits.
\<close>

definition constructed :: system where
  "constructed =
     \<lparr>statics = initial_rate_limiting, clock = 0, event_queue = [],
      subscription = Some Warning\<rparr>"

section \<open>Properties\<close>

subsection \<open>What one call and one callback do to the rate-limiting data\<close>

lemma level_int_nonneg: "0 \<le> level_int l" by (cases l) simp_all

lemma fst_sml: "fst (set_message_level pol now level rl) \<longleftrightarrow> current_message_level rl < level_int level"
  by (simp add: set_message_level_def Let_def)

lemma level_after_sml:
  "current_message_level (snd (set_message_level pol now level rl)) = max (current_message_level rl) (level_int level)"
  by (simp add: set_message_level_def Let_def)

lemma serial_after_sml:
  "current_message_serial (snd (set_message_level pol now level rl)) =
     current_message_serial rl + (if fst (set_message_level pol now level rl) then 1 else 0)"
  by (simp add: set_message_level_def Let_def)

lemma timers_after_sml:
  "message_func (snd (set_message_level pol now level rl)) =
     (if fst (set_message_level pol now level rl)
      then QueuedFunc_queue pol now 1000 (current_message_serial rl + 1) (message_func rl)
      else message_func rl)"
  by (simp add: set_message_level_def Let_def)

lemma serial_reset: "current_message_serial (reset_callback k rl) = current_message_serial rl"
  by (simp add: reset_callback_def)

lemma timers_reset: "message_func (reset_callback k rl) = message_func rl"
  by (simp add: reset_callback_def)

lemma serial_fire: "current_message_serial (fire_timer i rl) = current_message_serial rl"
  by (simp add: fire_timer_def serial_reset)

lemma timers_fire: "message_func (fire_timer i rl) = take i (message_func rl) @ drop (Suc i) (message_func rl)"
  by (simp add: fire_timer_def timers_reset)

lemma accepted_single:
  "accepted pol (x # xs) s = accepted pol [x] s + accepted pol xs (step pol x s)"
  by (cases x) simp_all


lemma exec_append: "exec pol (xs @ ys) s = exec pol ys (exec pol xs s)"
  by (induction xs arbitrary: s) simp_all

lemma accepted_append: "accepted pol (xs @ ys) s = accepted pol xs s + accepted pol ys (exec pol xs s)"
proof (induction xs arbitrary: s)
  case Nil show ?case by simp
next
  case (Cons x xs)
  show ?case using Cons [of "step pol x s"] accepted_single [of pol x "xs @ ys" s] accepted_single [of pol x xs s]
    by simp
qed



lemma unat_succ_32: "unat (w :: 32 word) + 1 < 2 ^ 32 \<Longrightarrow> unat (w + 1) = unat w + 1"
  by (simp add: unat_word_ariths)

lemma set_remove: "set (take i xs @ drop (Suc i) xs) \<subseteq> set xs"
  by (auto dest: in_set_takeD in_set_dropD)

lemma distinct_remove: "distinct (map f xs) \<Longrightarrow> distinct (map f (take i xs @ drop (Suc i) xs))"
proof (induction xs arbitrary: i)
  case Nil then show ?case by simp
next
  case (Cons x xs)
  show ?case
  proof (cases i)
    case 0 then show ?thesis using Cons.prems by simp
  next
    case (Suc j)
    have "f x \<notin> f ` set (take j xs @ drop (Suc j) xs)"
      using Cons.prems set_remove [of j xs] by auto
    then show ?thesis using Suc Cons.IH [of j] Cons.prems by auto
  qed
qed

lemma windows_inv_step:
  assumes "windows_inv n (snd s)" "n + accepted pol [x] s < 2 ^ 32"
  shows "windows_inv (n + accepted pol [x] s) (snd (step pol x s))"
proof (cases s)
  case (Pair now rl)
  show ?thesis
  proof (cases x)
    case (Admit level)
    show ?thesis
    proof (cases "fst (set_message_level pol now level rl)")
      case True
      then have u: "unat (current_message_serial rl + 1) = n + 1"
        using assms Pair Admit by (simp add: windows_inv_def unat_succ_32)
      show ?thesis using assms True Pair Admit u
        by (cases pol) (auto simp: windows_inv_def serial_after_sml timers_after_sml QueuedFunc_queue_def)
    next
      case False
      then show ?thesis using assms Pair Admit
        by (simp add: windows_inv_def serial_after_sml timers_after_sml)
    qed
  next
    case (Fire i)
    show ?thesis using assms Pair Fire set_remove [of i "message_func rl"]
      by (auto simp: windows_inv_def serial_fire timers_fire distinct_remove simp del: set_append map_append)
  next
    case (Wait d)
    then show ?thesis using assms Pair by simp
  qed
qed

lemma windows_inv_exec:
  "windows_inv n (snd s) \<Longrightarrow> n + accepted pol xs s < 2 ^ 32 \<Longrightarrow>
   windows_inv (n + accepted pol xs s) (snd (exec pol xs s))"
proof (induction xs arbitrary: s n)
  case Nil then show ?case by simp
next
  case (Cons x xs)
  have a: "accepted pol (x # xs) s = accepted pol [x] s + accepted pol xs (step pol x s)"
    by (rule accepted_single)
  have "windows_inv (n + accepted pol [x] s) (snd (step pol x s))"
    using Cons.prems a by (intro windows_inv_step) simp_all
  from Cons.IH [OF this] Cons.prems a show ?case by (simp add: add.assoc)
qed

subsection \<open>Splitting a text into lines\<close>

lemma split_parts_not_Nil: "split_parts sep s \<noteq> []"
  by (induction s) (auto split: list.splits)

lemma join_split_parts: "join_parts sep (split_parts sep s) = s"
proof (induction s)
  case Nil show ?case by simp
next
  case (Cons c cs)
  obtain p ps where ps: "split_parts sep cs = p # ps"
    using split_parts_not_Nil [of sep cs] by (cases "split_parts sep cs") auto
  show ?case
  proof (cases "c = sep")
    case True
    then show ?thesis using Cons ps by simp
  next
    case False
    then show ?thesis using Cons ps by (cases ps) simp_all
  qed
qed

lemma split_parts_no_sep: "p \<in> set (split_parts sep s) \<Longrightarrow> sep \<notin> set p"
proof (induction s arbitrary: p)
  case Nil then show ?case by simp
next
  case (Cons c cs)
  then show ?case by (auto split: if_splits list.splits)
qed

lemma split_skip_empty_Nil_iff: "split_skip_empty sep s = [] \<longleftrightarrow> set s \<subseteq> {sep}"
proof (induction s)
  case Nil show ?case by (simp add: split_skip_empty_def)
next
  case (Cons c cs)
  obtain p ps where ps: "split_parts sep cs = p # ps"
    using split_parts_not_Nil [of sep cs] by (cases "split_parts sep cs") auto
  show ?case using Cons ps by (auto simp: split_skip_empty_def split: if_splits)
qed

lemma last_filter_decomp:
  "filter P xs \<noteq> [] \<Longrightarrow> \<exists>ys zs. xs = ys @ last (filter P xs) # zs \<and> (\<forall>z \<in> set zs. \<not> P z)"
proof (induction xs)
  case Nil then show ?case by simp
next
  case (Cons x xs)
  show ?case
  proof (cases "filter P xs = []")
    case True
    then have "\<forall>z \<in> set xs. \<not> P z" by (simp add: filter_empty_conv)
    moreover have "P x" using Cons.prems True by (auto split: if_splits)
    ultimately show ?thesis using True by (intro exI [of _ "[]"] exI [of _ xs]) simp
  next
    case False
    from Cons.IH [OF this] obtain ys zs where
      "xs = ys @ last (filter P xs) # zs" "\<forall>z \<in> set zs. \<not> P z" by blast
    then show ?thesis using False
      by (intro exI [of _ "x # ys"] exI [of _ zs]) auto
  qed
qed

subsection \<open>The level and the windows along a run\<close>

lemma level_step:
  "current_message_level (snd s) = - 1 \<or> (\<exists>l. current_message_level (snd s) = level_int l) \<Longrightarrow>
   current_message_level (snd (step pol x s)) = - 1 \<or>
   (\<exists>l. current_message_level (snd (step pol x s)) = level_int l)"
proof (cases s)
  case (Pair now rl)
  assume a: "current_message_level (snd s) = - 1 \<or> (\<exists>l. current_message_level (snd s) = level_int l)"
  show ?thesis
  proof (cases x)
    case (Admit level)
    have "max (current_message_level rl) (level_int level) = current_message_level rl \<or>
          max (current_message_level rl) (level_int level) = level_int level"
      by (simp add: max_def)
    then show ?thesis using a Pair Admit by (auto simp: level_after_sml)
  next
    case (Fire i)
    then show ?thesis using a Pair by (auto simp: fire_timer_def reset_callback_def)
  next
    case (Wait d)
    then show ?thesis using a Pair by simp
  qed
qed

lemma level_exec:
  "current_message_level (snd s) = - 1 \<or> (\<exists>l. current_message_level (snd s) = level_int l) \<Longrightarrow>
   current_message_level (snd (exec pol xs s)) = - 1 \<or>
   (\<exists>l. current_message_level (snd (exec pol xs s)) = level_int l)"
proof (induction xs arbitrary: s)
  case Nil then show ?case by simp
next
  case (Cons x xs)
  show ?case using Cons.IH [OF level_step [OF Cons.prems]] by simp
qed

lemma filter_distinct_le_1:
  "distinct (map f xs) \<Longrightarrow> length (filter (\<lambda>x. f x = v) xs) \<le> 1"
proof (induction xs)
  case Nil then show ?case by simp
next
  case (Cons x xs)
  show ?case
  proof (cases "f x = v")
    case True
    then have "filter (\<lambda>x. f x = v) xs = []" using Cons.prems
      by (auto simp: filter_empty_conv image_iff)
    then show ?thesis using True by simp
  next
    case False
    then show ?thesis using Cons by simp
  qed
qed

lemma windows_inv_initial: "windows_inv 0 initial_rate_limiting"
  by (simp add: windows_inv_def initial_rate_limiting_def)

lemma windows_inv_reached:
  "accepted pol xs (0, initial_rate_limiting) < 2 ^ 32 \<Longrightarrow>
   windows_inv (accepted pol xs (0, initial_rate_limiting)) (reached pol xs)"
  using windows_inv_exec [of 0 "(0, initial_rate_limiting)" pol xs] windows_inv_initial
  by (simp add: reached_def)

lemma reach_any_serial:
  "exec pol (concat (replicate n [Admit Warning, Wait 1000, Fire 0]))
     (t, \<lparr>message_func = [], current_message_level = - 1, current_message_serial = w\<rparr>) =
   (t + 1000 * n,
    \<lparr>message_func = [], current_message_level = - 1, current_message_serial = w + of_nat n\<rparr>)"
proof (induction n arbitrary: t w)
  case 0 show ?case by simp
next
  case (Suc n)
  have "exec pol [Admit Warning, Wait 1000, Fire 0]
     (t, \<lparr>message_func = [], current_message_level = - 1, current_message_serial = w\<rparr>) =
     (t + 1000, \<lparr>message_func = [], current_message_level = - 1, current_message_serial = w + 1\<rparr>)"
    by (cases pol)
      (simp_all add: set_message_level_def QueuedFunc_queue_def Let_def fire_timer_def reset_callback_def)
  then show ?case using Suc [of "t + 1000" "w + 1"] by (simp add: exec_append algebra_simps)
qed



subsection \<open>The handler and the text it hands on\<close>

lemma display_text_fails: "display_text s = Inl Last_Of_Empty_List \<longleftrightarrow> set s = {newline}"
proof (cases "newline \<in> set s")
  case True
  then have "set s \<subseteq> {newline} \<longleftrightarrow> set s = {newline}" by auto
  then show ?thesis using True split_skip_empty_Nil_iff [of newline s]
    by (auto simp: display_text_def QList_last_def split: list.splits)
next
  case False
  then show ?thesis by (auto simp: display_text_def)
qed

lemma log_handler_rejected:
  "\<not> fst (set_message_level pol (clock sys) level (statics sys)) \<Longrightarrow>
   log_handler pol level file line func text' sys = Inr sys"
  by (cases "set_message_level pol (clock sys) level (statics sys)") (simp add: log_handler_def)

lemma failure_eq: "(e :: failure) = Last_Of_Empty_List"
  by (cases e)

lemma log_handler_accepted:
  assumes "fst (set_message_level pol (clock sys) level (statics sys))"
  shows "log_handler pol level file line func text' sys =
     (case display_text text' of
        Inl e \<Rightarrow> Inl e
      | Inr s \<Rightarrow>
          Inr (sys\<lparr>statics := snd (set_message_level pol (clock sys) level (statics sys)),
                   event_queue := event_queue sys @
                     [(''qtui log message'', \<lparr>msg_level = level, msg_text = s\<rparr>)]\<rparr>))"
proof -
  obtain rl where "set_message_level pol (clock sys) level (statics sys) = (True, rl)"
    using assms by (cases "set_message_level pol (clock sys) level (statics sys)") simp
  then show ?thesis by (simp add: log_handler_def split: sum.splits)
qed

lemma display_text_single_line:
  assumes "display_text s = Inr r"
  shows "newline \<notin> set r \<and>
         (newline \<notin> set s \<longrightarrow> r = s) \<and>
         (newline \<in> set s \<longrightarrow> r \<noteq> [] \<and>
            (\<exists>ps n. split_parts newline s = ps @ r # replicate n [] \<and>
                    s = join_parts newline (ps @ r # replicate n [])))"
proof (cases "newline \<in> set s")
  case False
  then show ?thesis using assms by (simp add: display_text_def)
next
  case True
  let ?parts = "split_parts newline s"
  have ne: "filter (\<lambda>p. p \<noteq> []) ?parts \<noteq> []" and r: "r = last (filter (\<lambda>p. p \<noteq> []) ?parts)"
    using assms True
    by (auto simp: display_text_def QList_last_def split_skip_empty_def split: list.splits)
  from last_filter_decomp [OF ne] obtain ys zs where
    parts: "?parts = ys @ r # zs" and zs: "\<forall>z \<in> set zs. \<not> z \<noteq> []"
    unfolding r by blast
  have "zs = replicate (length zs) []"
    using zs by (simp add: replicate_length_same)
  then have shape: "?parts = ys @ r # replicate (length zs) []"
    using parts by simp
  have "r \<in> set (filter (\<lambda>p. p \<noteq> []) ?parts)"
    unfolding r using ne by (rule last_in_set)
  then have "r \<noteq> []" and "r \<in> set ?parts" by simp_all
  then have "newline \<notin> set r" using split_parts_no_sep by blast
  moreover have "s = join_parts newline (ys @ r # replicate (length zs) [])"
    using join_split_parts [of newline s] shape by simp
  ultimately show ?thesis using True \<open>r \<noteq> []\<close> shape by blast
qed

lemma display_text_total:
  "set s \<noteq> {newline} \<Longrightarrow> \<exists>r. display_text s = Inr r"
  using display_text_fails [of s] failure_eq by (cases "display_text s") auto

lemma display_text_abc:
  "display_text (''a'' @ [newline] @ ''b'' @ [newline] @ ''c'') = Inr ''c''"
  by (simp add: display_text_def newline_def split_skip_empty_def QList_last_def)

subsection \<open>After the handler is unsubscribed\<close>

lemma happen_unsubscribed:
  "subscription sys = None \<Longrightarrow>
   \<exists>sys'. happen pol h sys = Inr sys' \<and> subscription sys' = None \<and>
          event_queue sys' = event_queue sys"
  by (cases h) (simp_all add: audlog_log_def run_callback_def)

lemma happen_all_unsubscribed:
  "subscription sys = None \<Longrightarrow>
   \<exists>sys'. happen_all pol hs sys = Inr sys' \<and> subscription sys' = None \<and>
          event_queue sys' = event_queue sys"
proof (induction hs arbitrary: sys)
  case Nil then show ?case by simp
next
  case (Cons h hs)
  from happen_unsubscribed [OF Cons.prems, of pol h] obtain sys1 where
    h: "happen pol h sys = Inr sys1" and s: "subscription sys1 = None"
    and q: "event_queue sys1 = event_queue sys" by blast
  from Cons.IH [OF s] show ?case using h q by simp
qed

section \<open>The claims\<close>

text \<open>
  C1. After every sequence of calls of \<open>set_message_level\<close>, runs of waiting callbacks
  and waits, a call of \<open>set_message_level\<close> returns true if and only if no message is
  active (the level is \<open>-1\<close>) or its level is strictly greater than the active level.
  The active level is always \<open>-1\<close> or the level of a message, and of two calls in a
  row with the same level the second is rejected, whatever the first returned.
\<close>

theorem admit_iff_strictly_greater:
  "(fst (set_message_level pol now level (reached pol xs)) \<longleftrightarrow>
      current_message_level (reached pol xs) = - 1 \<or>
      current_message_level (reached pol xs) < level_int level) \<and>
   (current_message_level (reached pol xs) = - 1 \<or>
      (\<exists>l. current_message_level (reached pol xs) = level_int l)) \<and>
   \<not> fst (set_message_level pol now' level
            (snd (set_message_level pol now level (reached pol xs))))"
proof -
  have "current_message_level (reached pol xs) = - 1 \<or>
      (\<exists>l. current_message_level (reached pol xs) = level_int l)"
    unfolding reached_def by (rule level_exec) (simp add: initial_rate_limiting_def)
  moreover have "0 \<le> level_int level" by (rule level_int_nonneg)
  ultimately show ?thesis by (auto simp: fst_sml level_after_sml)
qed




text \<open>
  C3, as amended. A call of \<open>set_message_level\<close> with a level strictly greater than
  the current one accepts: it returns true and leaves the level at the level of the
  message and the serial at one more than it was modulo \<open>2^32\<close>, which is exactly
  one more unless the serial was \<open>0xFFFFFFFF\<close>, where it becomes 0. The callback it
  queues last carries that new serial and is due 1000 ms after the call.
\<close>

theorem accept_post_state:
  assumes "current_message_level rl < level_int level"
  shows "set_message_level pol now level rl =
           (True, rl\<lparr>current_message_level := level_int level,
                     current_message_serial := current_message_serial rl + 1,
                     message_func := QueuedFunc_queue pol now 1000
                        (current_message_serial rl + 1) (message_func rl)\<rparr>) \<and>
         fst (set_message_level pol now level rl) \<and>
         current_message_level (snd (set_message_level pol now level rl)) = level_int level \<and>
         current_message_serial (snd (set_message_level pol now level rl)) =
           current_message_serial rl + 1 \<and>
         unat (current_message_serial (snd (set_message_level pol now level rl))) =
           (unat (current_message_serial rl) + 1) mod 2 ^ 32 \<and>
         (current_message_serial rl \<noteq> 0xFFFFFFFF \<longrightarrow>
            unat (current_message_serial (snd (set_message_level pol now level rl))) =
              unat (current_message_serial rl) + 1) \<and>
         (current_message_serial rl = 0xFFFFFFFF \<longrightarrow>
            current_message_serial (snd (set_message_level pol now level rl)) = 0) \<and>
         last (message_func (snd (set_message_level pol now level rl))) =
           \<lparr>due = now + 1000,
            captured_serial = current_message_serial (snd (set_message_level pol now level rl))\<rparr>"
proof -
  have m: "unat (current_message_serial rl + 1) = (unat (current_message_serial rl) + 1) mod 2 ^ 32"
    by (simp add: unat_word_ariths)
  have below: "unat (current_message_serial rl + 1) = unat (current_message_serial rl) + 1"
    if "current_message_serial rl \<noteq> 0xFFFFFFFF"
  proof -
    have "unat (current_message_serial rl) \<noteq> 4294967295"
    proof
      assume "unat (current_message_serial rl) = 4294967295"
      then have "(of_nat (unat (current_message_serial rl)) :: 32 word) = of_nat 4294967295"
        by (rule arg_cong)
      then show False using that by simp
    qed
    moreover have "unat (current_message_serial rl) < 2 ^ 32"
      using unsigned_less [of "current_message_serial rl", where ?'a = nat] by simp
    ultimately have "unat (current_message_serial rl) + 1 < 2 ^ 32" by simp
    then show ?thesis by (rule unat_succ_32)
  qed
  have top: "current_message_serial rl + 1 = 0" if "current_message_serial rl = 0xFFFFFFFF"
    using that by simp
  show ?thesis using assms m below top
    by (cases pol) (simp_all add: set_message_level_def Let_def QueuedFunc_queue_def)
qed

text \<open>
  C3 as amended at the first message of a program, an error at time 7.
\<close>

theorem accept_post_state_witness:
  "current_message_level initial_rate_limiting < level_int Error \<and>
   set_message_level Keep_Previous 7 Error initial_rate_limiting =
     (True, \<lparr>message_func = [\<lparr>due = 1007, captured_serial = 1\<rparr>],
             current_message_level = 2, current_message_serial = 1\<rparr>) \<and>
   unat (current_message_serial (snd (set_message_level Keep_Previous 7 Error initial_rate_limiting))) =
     unat (current_message_serial initial_rate_limiting) + 1"
  using accept_post_state [of initial_rate_limiting Error Keep_Previous 7]
  by (simp add: initial_rate_limiting_def QueuedFunc_queue_def)

text \<open>
  The statement of C3 as written fails at the top of the counter: the data with the
  serial \<open>0xFFFFFFFF\<close> and no message active are reached from the start of the
  program, the next call is accepted, and the serial after it is 0, not one more than
  \<open>4294967295\<close>.
\<close>

theorem accept_at_top_counterexample:
  "reached Cancel_Previous (concat (replicate 4294967295 [Admit Warning, Wait 1000, Fire 0])) =
     \<lparr>message_func = [], current_message_level = - 1, current_message_serial = 0xFFFFFFFF\<rparr> \<and>
   fst (set_message_level Cancel_Previous 0 Error
     \<lparr>message_func = [], current_message_level = - 1, current_message_serial = 0xFFFFFFFF\<rparr>) \<and>
   unat (current_message_serial (snd (set_message_level Cancel_Previous 0 Error
     \<lparr>message_func = [], current_message_level = - 1, current_message_serial = 0xFFFFFFFF\<rparr>))) = 0 \<and>
   unat (current_message_serial
     \<lparr>message_func = [], current_message_level = - 1, current_message_serial = 0xFFFFFFFF\<rparr>) + 1 =
     4294967296 \<and>
   unat (current_message_serial (snd (set_message_level Cancel_Previous 0 Error
     \<lparr>message_func = [], current_message_level = - 1, current_message_serial = 0xFFFFFFFF\<rparr>))) \<noteq>
   unat (current_message_serial
     \<lparr>message_func = [], current_message_level = - 1, current_message_serial = 0xFFFFFFFF\<rparr>) + 1"
proof -
  have "reached Cancel_Previous (concat (replicate 4294967295 [Admit Warning, Wait 1000, Fire 0])) =
     \<lparr>message_func = [], current_message_level = - 1, current_message_serial = 0 + of_nat 4294967295\<rparr>"
    unfolding reached_def initial_rate_limiting_def
    by (subst reach_any_serial) simp
  then show ?thesis
    by (simp add: set_message_level_def QueuedFunc_queue_def Let_def)
qed

text \<open>
  C4. A call of \<open>set_message_level\<close> with a level less than or equal to the current
  level returns false and the rate-limiting data unchanged: level, serial and waiting
  callbacks. \<open>log_handler\<close> then returns at once and leaves the whole system as it
  was, so no event is queued for the message.
\<close>

theorem rejected_admit_changes_nothing:
  assumes "level_int level \<le> current_message_level (statics sys)"
  shows "set_message_level pol now level (statics sys) = (False, statics sys) \<and>
         log_handler pol level file line func text' sys = Inr sys"
proof -
  have "set_message_level pol now level (statics sys) = (False, statics sys)" for now
    using assms by (simp add: set_message_level_def)
  then show ?thesis using log_handler_rejected [of pol sys level] by simp
qed

text \<open>
  C4 on a warning that arrives 400 ms after an error.
\<close>

theorem rejected_admit_changes_nothing_witness:
  "level_int Warning \<le> current_message_level (statics
     \<lparr>statics = \<lparr>message_func = [\<lparr>due = 1000, captured_serial = 1\<rparr>],
                 current_message_level = 2, current_message_serial = 1\<rparr>,
      clock = 400,
      event_queue = [(''qtui log message'', \<lparr>msg_level = Error, msg_text = ''first''\<rparr>)],
      subscription = Some Warning\<rparr>) \<and>
   log_handler Keep_Previous Warning ''file'' 12 ''func'' ''second''
     \<lparr>statics = \<lparr>message_func = [\<lparr>due = 1000, captured_serial = 1\<rparr>],
                 current_message_level = 2, current_message_serial = 1\<rparr>,
      clock = 400,
      event_queue = [(''qtui log message'', \<lparr>msg_level = Error, msg_text = ''first''\<rparr>)],
      subscription = Some Warning\<rparr> =
   Inr \<lparr>statics = \<lparr>message_func = [\<lparr>due = 1000, captured_serial = 1\<rparr>],
                 current_message_level = 2, current_message_serial = 1\<rparr>,
      clock = 400,
      event_queue = [(''qtui log message'', \<lparr>msg_level = Error, msg_text = ''first''\<rparr>)],
      subscription = Some Warning\<rparr>"
  using rejected_admit_changes_nothing [of Warning
     "\<lparr>statics = \<lparr>message_func = [\<lparr>due = 1000, captured_serial = 1\<rparr>],
                 current_message_level = 2, current_message_serial = 1\<rparr>,
      clock = 400,
      event_queue = [(''qtui log message'', \<lparr>msg_level = Error, msg_text = ''first''\<rparr>)],
      subscription = Some Warning\<rparr>" Keep_Previous 0 "''file''" 12 "''func''" "''second''"]
  by simp

text \<open>
  C5. The scenario of the specification on the punctual schedule, from the initial
  data: Warning at 0 is admitted, Warning at 500 rejected, Error at 600 admitted, Info
  at 700 rejected. The callback due at 1000, if it still waits, changes nothing (the
  level is still that of the error at 1000 and at 1599); the callback due at 1600
  resets the level, so the level is \<open>-1\<close> and nothing waits at 1601, and Info at
  1700 is admitted.
\<close>

theorem timed_scenario:
  "(let (b1, r1) = admit_at pol 0 Warning initial_rate_limiting;
        (b2, r2) = admit_at pol 500 Warning r1;
        (b3, r3) = admit_at pol 600 Error r2;
        (b4, r4) = admit_at pol 700 Info r3;
        r5 = advance 1601 r4;
        (b6, r6) = admit_at pol 1700 Info r5
    in b1 \<and> \<not> b2 \<and> b3 \<and> \<not> b4 \<and> b6 \<and>
       current_message_level (advance 1000 r4) = level_int Error \<and>
       current_message_level (advance 1599 r4) = level_int Error \<and>
       current_message_level (advance 1600 r4) = - 1 \<and>
       current_message_level r5 = - 1 \<and> message_func r5 = [] \<and>
       current_message_level r6 = level_int Info)"
  by (cases pol)
    (simp_all add: admit_at_def advance_def set_message_level_def reset_callback_def
      QueuedFunc_queue_def initial_rate_limiting_def Let_def)

text \<open>
  C6, as amended. The serial is changed by an accepted call of \<open>set_message_level\<close>
  only, which adds one modulo \<open>2^32\<close>; a rejected call and the callback leave it as
  it is. Along a run from the start of the program that accepts fewer than \<open>2^32\<close>
  messages, the serial after every prefix is the number of messages accepted so far,
  so it never decreases and no two windows share a serial; the waiting callbacks carry
  different serials and at most one of them carries the current one.
\<close>

theorem serial_counts_accepted:
  assumes "accepted pol xs (0, initial_rate_limiting) < 2 ^ 32"
  shows "unat (current_message_serial (reached pol xs)) = accepted pol xs (0, initial_rate_limiting) \<and>
         (\<forall>ys zs. xs = ys @ zs \<longrightarrow>
            unat (current_message_serial (reached pol ys)) = accepted pol ys (0, initial_rate_limiting) \<and>
            unat (current_message_serial (reached pol ys)) \<le> unat (current_message_serial (reached pol xs))) \<and>
         distinct (map captured_serial (message_func (reached pol xs))) \<and>
         length (filter (\<lambda>x. captured_serial x = current_message_serial (reached pol xs))
                   (message_func (reached pol xs))) \<le> 1 \<and>
         current_message_serial (reset_callback k rl) = current_message_serial rl \<and>
         current_message_serial (snd (set_message_level pol now level rl)) =
           (if fst (set_message_level pol now level rl)
            then current_message_serial rl + 1 else current_message_serial rl)"
proof -
  let ?s = "(0 :: nat, initial_rate_limiting)"
  have inv: "windows_inv (accepted pol xs ?s) (reached pol xs)"
    using assms by (rule windows_inv_reached)
  have prefix: "unat (current_message_serial (reached pol ys)) = accepted pol ys ?s \<and>
       unat (current_message_serial (reached pol ys)) \<le> unat (current_message_serial (reached pol xs))"
    if "xs = ys @ zs" for ys zs
  proof -
    have le: "accepted pol ys ?s \<le> accepted pol xs ?s" using that by (simp add: accepted_append)
    then have "windows_inv (accepted pol ys ?s) (reached pol ys)"
      using assms by (intro windows_inv_reached) simp
    then show ?thesis using inv le by (simp add: windows_inv_def)
  qed
  have d: "distinct (map captured_serial (message_func (reached pol xs)))"
    using inv by (simp add: windows_inv_def)
  have count: "unat (current_message_serial (reached pol xs)) = accepted pol xs ?s"
    using inv by (simp add: windows_inv_def)
  have "\<forall>ys zs. xs = ys @ zs \<longrightarrow>
      unat (current_message_serial (reached pol ys)) = accepted pol ys ?s \<and>
      unat (current_message_serial (reached pol ys)) \<le> unat (current_message_serial (reached pol xs))"
    using prefix by blast
  moreover have "current_message_serial (snd (set_message_level pol now level rl)) =
           (if fst (set_message_level pol now level rl)
            then current_message_serial rl + 1 else current_message_serial rl)"
    by (simp add: serial_after_sml)
  ultimately show ?thesis using count d filter_distinct_le_1 [OF d] serial_reset [of k rl]
    by blast
qed

text \<open>
  C6 as amended on a run that accepts three messages.
\<close>

theorem serial_counts_accepted_witness:
  "accepted Keep_Previous [Admit Warning, Admit Error, Wait 1000, Fire 0, Admit Info, Wait 600, Fire 0, Admit Info]
     (0, initial_rate_limiting) = 3 \<and>
   unat (current_message_serial
     (reached Keep_Previous [Admit Warning, Admit Error, Wait 1000, Fire 0, Admit Info, Wait 600, Fire 0, Admit Info])) = 3 \<and>
   distinct (map captured_serial (message_func
     (reached Keep_Previous [Admit Warning, Admit Error, Wait 1000, Fire 0, Admit Info, Wait 600, Fire 0, Admit Info])))"
proof -
  let ?xs = "[Admit Warning, Admit Error, Wait 1000, Fire 0, Admit Info, Wait 600, Fire 0, Admit Info]"
  have a: "accepted Keep_Previous ?xs (0, initial_rate_limiting) = 3"
    by (simp add: set_message_level_def initial_rate_limiting_def QueuedFunc_queue_def Let_def
        fire_timer_def reset_callback_def)
  then have lt: "accepted Keep_Previous ?xs (0, initial_rate_limiting) < 2 ^ 32"
    by simp
  note w = serial_counts_accepted [OF lt, of 0 initial_rate_limiting 0 Info]
  from w have "unat (current_message_serial (reached Keep_Previous ?xs)) =
      accepted Keep_Previous ?xs (0, initial_rate_limiting)"
    by (rule conjunct1)
  moreover from w have "distinct (map captured_serial (message_func (reached Keep_Previous ?xs)))"
    by blast
  ultimately show ?thesis using a by simp
qed

text \<open>
  The statement of C6 as written fails once the counter wraps around. The run that
  admits a warning and lets its callback reset the level, \<open>2^32 - 1\<close> times over,
  reaches the serial \<open>0xFFFFFFFF\<close> with no message active; the next accepted call
  takes the serial down to 0. One round more, and the window that opens has the serial
  of the first window of the program.
\<close>

theorem serial_wraps_counterexample:
  "reached Keep_Previous (concat (replicate 4294967295 [Admit Warning, Wait 1000, Fire 0])) =
     \<lparr>message_func = [], current_message_level = - 1, current_message_serial = 0xFFFFFFFF\<rparr> \<and>
   set_message_level Keep_Previous 0 Warning
     \<lparr>message_func = [], current_message_level = - 1, current_message_serial = 0xFFFFFFFF\<rparr> =
     (True, \<lparr>message_func = [\<lparr>due = 1000, captured_serial = 0\<rparr>],
             current_message_level = 1, current_message_serial = 0\<rparr>) \<and>
   \<not> unat (current_message_serial
         \<lparr>message_func = [], current_message_level = - 1, current_message_serial = 0xFFFFFFFF\<rparr>)
       \<le> unat (current_message_serial (snd (set_message_level Keep_Previous 0 Warning
         \<lparr>message_func = [], current_message_level = - 1, current_message_serial = 0xFFFFFFFF\<rparr>))) \<and>
   current_message_serial (reached Keep_Previous
      (concat (replicate 4294967296 [Admit Warning, Wait 1000, Fire 0]) @ [Admit Warning])) =
     current_message_serial (reached Keep_Previous [Admit Warning])"
proof -
  have "reached Keep_Previous (concat (replicate 4294967295 [Admit Warning, Wait 1000, Fire 0])) =
     \<lparr>message_func = [], current_message_level = - 1, current_message_serial = 0 + of_nat 4294967295\<rparr>"
    unfolding reached_def initial_rate_limiting_def
    by (subst reach_any_serial) simp
  moreover have "reached Keep_Previous
      (concat (replicate 4294967296 [Admit Warning, Wait 1000, Fire 0]) @ [Admit Warning]) =
     snd (exec Keep_Previous [Admit Warning] (1000 * 4294967296,
       \<lparr>message_func = [], current_message_level = - 1, current_message_serial = 0 + of_nat 4294967296\<rparr>))"
    unfolding reached_def initial_rate_limiting_def exec_append
    by (subst reach_any_serial) simp
  ultimately show ?thesis
    by (simp add: set_message_level_def QueuedFunc_queue_def Let_def reached_def
        initial_rate_limiting_def)
qed

text \<open>
  C7. The claim covers every admitted text, and fails on a text that is a line feed
  and nothing else: every piece of the split is empty, \<open>last\<close> is called on an empty
  list and no text is handed on. (For a text with a character other than the line
  feed, \<open>display_text_single_line\<close> and \<open>display_text_total\<close> above give the claim.)
\<close>

theorem log_handler_only_newlines_fails:
  "log_handler pol Warning file line func [newline] constructed = Inl Last_Of_Empty_List"
  by (simp add: log_handler_def set_message_level_def constructed_def initial_rate_limiting_def
      Let_def display_text_def split_skip_empty_def QList_last_def)

text \<open>
  C8, as amended. The destructor unsubscribes the handler, after which the logging
  subsystem hands it no message, and removes every event named "qtui log message" from
  the event queue, leaving the events of other names. It leaves the rate-limiting data
  alone: the callbacks of \<open>message_func\<close> keep waiting, and running one after the
  destructor acts on the rate-limiting data just as it would have before. Whatever
  happens after the destructor, the handler stays unsubscribed, nothing fails and no
  event named "qtui log message" is queued again.
\<close>

theorem destructor_effect:
  "subscription (StatusBar_destructor sys) = None \<and>
   filter (\<lambda>e. fst e = ''qtui log message'') (event_queue (StatusBar_destructor sys)) = [] \<and>
   filter (\<lambda>e. fst e \<noteq> ''qtui log message'') (event_queue (StatusBar_destructor sys)) =
     filter (\<lambda>e. fst e \<noteq> ''qtui log message'') (event_queue sys) \<and>
   statics (StatusBar_destructor sys) = statics sys \<and>
   clock (StatusBar_destructor sys) = clock sys \<and>
   audlog_log pol level file line func text' (StatusBar_destructor sys) =
     Inr (StatusBar_destructor sys) \<and>
   run_callback i (StatusBar_destructor sys) = StatusBar_destructor (run_callback i sys) \<and>
   (\<exists>sys'. happen_all pol hs (StatusBar_destructor sys) = Inr sys' \<and>
      subscription sys' = None \<and>
      filter (\<lambda>e. fst e = ''qtui log message'') (event_queue sys') = [])"
proof -
  have unsub: "subscription (StatusBar_destructor sys) = None"
    by (simp add: StatusBar_destructor_def)
  have none: "filter (\<lambda>e. fst e = ''qtui log message'') (event_queue (StatusBar_destructor sys)) = []"
    by (simp add: StatusBar_destructor_def)
  from happen_all_unsubscribed [OF unsub, of pol hs] obtain sys' where
    "happen_all pol hs (StatusBar_destructor sys) = Inr sys'" "subscription sys' = None"
    "event_queue sys' = event_queue (StatusBar_destructor sys)" by blast
  then have later: "\<exists>sys'. happen_all pol hs (StatusBar_destructor sys) = Inr sys' \<and>
      subscription sys' = None \<and>
      filter (\<lambda>e. fst e = ''qtui log message'') (event_queue sys') = []"
    using none by simp
  have rest: "filter (\<lambda>e. fst e \<noteq> ''qtui log message'') (event_queue (StatusBar_destructor sys)) =
     filter (\<lambda>e. fst e \<noteq> ''qtui log message'') (event_queue sys)"
    "statics (StatusBar_destructor sys) = statics sys"
    "clock (StatusBar_destructor sys) = clock sys"
    "run_callback i (StatusBar_destructor sys) = StatusBar_destructor (run_callback i sys)"
    by (simp_all add: StatusBar_destructor_def run_callback_def)
  have log: "audlog_log pol level file line func text' (StatusBar_destructor sys) =
     Inr (StatusBar_destructor sys)"
    using unsub by (simp add: audlog_log_def)
  show ?thesis using unsub none rest log later by blast
qed

text \<open>
  The statement of C8 as written fails: after one warning the destructor leaves the
  callback of that message waiting, and a second later the callback runs and resets
  the level.
\<close>

theorem destructor_leaves_reset_counterexample:
  "happen_all Keep_Previous [Logged Warning ''file'' 3 ''func'' ''no output''] constructed =
     Inr \<lparr>statics = \<lparr>message_func = [\<lparr>due = 1000, captured_serial = 1\<rparr>],
                     current_message_level = 1, current_message_serial = 1\<rparr>,
          clock = 0,
          event_queue = [(''qtui log message'', \<lparr>msg_level = Warning, msg_text = ''no output''\<rparr>)],
          subscription = Some Warning\<rparr> \<and>
   StatusBar_destructor
     \<lparr>statics = \<lparr>message_func = [\<lparr>due = 1000, captured_serial = 1\<rparr>],
                 current_message_level = 1, current_message_serial = 1\<rparr>,
      clock = 0,
      event_queue = [(''qtui log message'', \<lparr>msg_level = Warning, msg_text = ''no output''\<rparr>)],
      subscription = Some Warning\<rparr> =
     \<lparr>statics = \<lparr>message_func = [\<lparr>due = 1000, captured_serial = 1\<rparr>],
                 current_message_level = 1, current_message_serial = 1\<rparr>,
      clock = 0, event_queue = [], subscription = None\<rparr> \<and>
   happen_all Keep_Previous [Elapse 1000, Callback 0]
     \<lparr>statics = \<lparr>message_func = [\<lparr>due = 1000, captured_serial = 1\<rparr>],
                 current_message_level = 1, current_message_serial = 1\<rparr>,
      clock = 0, event_queue = [], subscription = None\<rparr> =
     Inr \<lparr>statics = \<lparr>message_func = [], current_message_level = - 1, current_message_serial = 1\<rparr>,
          clock = 1000, event_queue = [], subscription = None\<rparr>"
  by (simp add: audlog_log_def log_handler_def set_message_level_def constructed_def
      initial_rate_limiting_def Let_def display_text_def newline_def QueuedFunc_queue_def
      StatusBar_destructor_def run_callback_def fire_timer_def reset_callback_def)

text \<open>
  C9. \<open>log_message\<close> passes 5000 ms to \<open>showMessage\<close> for every message, and every
  accepted call of \<open>set_message_level\<close> queues its callback with a delay of 1000 ms;
  a rejected call queues nothing.
\<close>

theorem timing_constants:
  "TIMEOUT_MS = 5000 \<and>
   (\<exists>css. log_message message =
      [codec_label_hide, setStyleSheet css, showMessage (msg_text message) 5000]) \<and>
   (fst (set_message_level pol now level rl) \<longrightarrow>
      message_func (snd (set_message_level pol now level rl)) =
        QueuedFunc_queue pol now 1000 (current_message_serial rl + 1) (message_func rl) \<and>
      due (last (message_func (snd (set_message_level pol now level rl)))) = now + 1000) \<and>
   (\<not> fst (set_message_level pol now level rl) \<longrightarrow>
      message_func (snd (set_message_level pol now level rl)) = message_func rl)"
  by (cases pol) (simp_all add: TIMEOUT_MS_def log_message_def timers_after_sml QueuedFunc_queue_def)

text \<open>
  C9 on a warning accepted at time 250, the same warning again, and an error shown.
\<close>

theorem timing_constants_witness:
  "fst (set_message_level Cancel_Previous 250 Warning initial_rate_limiting) \<and>
   message_func (snd (set_message_level Cancel_Previous 250 Warning initial_rate_limiting)) =
     [\<lparr>due = 1250, captured_serial = 1\<rparr>] \<and>
   \<not> fst (set_message_level Cancel_Previous 250 Warning
      (snd (set_message_level Cancel_Previous 250 Warning initial_rate_limiting))) \<and>
   log_message \<lparr>msg_level = Error, msg_text = ''no output''\<rparr> =
     [codec_label_hide, setStyleSheet error_css, showMessage ''no output'' 5000]"
  using timing_constants [of "\<lparr>msg_level = Error, msg_text = ''no output''\<rparr>"
      Cancel_Previous 250 Warning initial_rate_limiting]
  by (simp add: set_message_level_def initial_rate_limiting_def QueuedFunc_queue_def Let_def
      log_message_def TIMEOUT_MS_def)

text \<open>
  C10. The text handed on is a failure exactly for the texts made of line feeds only
  (at least one): these are the texts with a line feed whose split has no piece left
  once the empty ones are skipped, that is, whose pieces are all empty, and then
  \<open>last\<close> is called on the empty list. For an accepted message \<open>log_handler\<close> fails
  on exactly these texts; every other text, with a character that is not a line feed
  or with no character at all, gives a result.
\<close>

theorem display_text_fails_iff_only_newlines:
  "(display_text s = Inl Last_Of_Empty_List \<longleftrightarrow> set s = {newline}) \<and>
   (set s = {newline} \<longleftrightarrow> newline \<in> set s \<and> split_skip_empty newline s = []) \<and>
   (split_skip_empty newline s = [] \<longleftrightarrow> list_all (\<lambda>p. p = []) (split_parts newline s)) \<and>
   QList_last (split_skip_empty newline [newline]) = Inl Last_Of_Empty_List \<and>
   QList_last (split_skip_empty newline [newline, newline]) = Inl Last_Of_Empty_List \<and>
   (fst (set_message_level pol (clock sys) level (statics sys)) \<longrightarrow>
      (log_handler pol level file line func s sys = Inl Last_Of_Empty_List \<longleftrightarrow>
         set s = {newline})) \<and>
   (set s \<noteq> {newline} \<longrightarrow> (\<exists>sys'. log_handler pol level file line func s sys = Inr sys'))"
proof -
  have a: "set s = {newline} \<longleftrightarrow> newline \<in> set s \<and> split_skip_empty newline s = []"
    using split_skip_empty_Nil_iff [of newline s] by auto
  have b: "split_skip_empty newline s = [] \<longleftrightarrow> list_all (\<lambda>p. p = []) (split_parts newline s)"
    by (simp add: split_skip_empty_def filter_empty_conv list_all_iff)
  have c: "log_handler pol level file line func s sys = Inl Last_Of_Empty_List \<longleftrightarrow>
         set s = {newline}"
    if "fst (set_message_level pol (clock sys) level (statics sys))"
    using log_handler_accepted [OF that] display_text_fails [of s] failure_eq
    by (cases "display_text s") auto
  have d: "\<exists>sys'. log_handler pol level file line func s sys = Inr sys'" if "set s \<noteq> {newline}"
  proof (cases "fst (set_message_level pol (clock sys) level (statics sys))")
    case True
    from display_text_total [OF that] obtain r where "display_text s = Inr r" ..
    then show ?thesis using log_handler_accepted [OF True] by simp
  next
    case False
    then show ?thesis using log_handler_rejected [of pol sys level] by simp
  qed
  have e: "QList_last (split_skip_empty newline [newline]) = Inl Last_Of_Empty_List"
    "QList_last (split_skip_empty newline [newline, newline]) = Inl Last_Of_Empty_List"
    by (simp_all add: split_skip_empty_def QList_last_def)
  show ?thesis using display_text_fails [of s] a b c d e by blast
qed

text \<open>
  C10 on the text of two line feeds, and on a text without one.
\<close>

theorem display_text_fails_iff_only_newlines_witness:
  "fst (set_message_level Keep_Previous (clock constructed) Warning (statics constructed)) \<and>
   set [newline, newline] = {newline} \<and>
   log_handler Keep_Previous Warning ''file'' 3 ''func'' [newline, newline] constructed =
     Inl Last_Of_Empty_List \<and>
   set ''ok'' \<noteq> {newline} \<and>
   (\<exists>sys'. log_handler Keep_Previous Warning ''file'' 3 ''func'' ''ok'' constructed = Inr sys')"
proof -
  have acc: "fst (set_message_level Keep_Previous (clock constructed) Warning (statics constructed))"
    by (simp add: fst_sml constructed_def initial_rate_limiting_def)
  have only: "set [newline, newline] = {newline}" by simp
  have other: "set ''ok'' \<noteq> {newline}" by (simp add: newline_def)
  note w1 = display_text_fails_iff_only_newlines
    [of "[newline, newline]" Keep_Previous constructed Warning "''file''" 3 "''func''"]
  note w2 = display_text_fails_iff_only_newlines
    [of "''ok''" Keep_Previous constructed Warning "''file''" 3 "''func''"]
  have "log_handler Keep_Previous Warning ''file'' 3 ''func'' [newline, newline] constructed =
     Inl Last_Of_Empty_List"
    using w1 acc only by blast
  moreover have "\<exists>sys'. log_handler Keep_Previous Warning ''file'' 3 ''func'' ''ok'' constructed = Inr sys'"
    using w2 other by blast
  ultimately show ?thesis using acc only other by blast
qed

end
